theory Spec2Isabelle
  imports Complex_Main "HOL-Library.Word" "HOL-Library.Char_ord" "HOL-Library.List_Lexorder"
begin

section \<open>Strings\<close>

text \<open>
  Go strings are byte sequences; they are modelled as \<open>string\<close> (a list of 8-bit
  characters).  The helpers of package \<open>strings\<close> below are the ASCII fragment of the
  library functions: bytes outside ASCII are neither letters nor white space here.
\<close>

definition is_upper :: "char \<Rightarrow> bool" where
  "is_upper c = (65 \<le> (of_char c :: nat) \<and> (of_char c :: nat) \<le> 90)"

definition is_digit :: "char \<Rightarrow> bool" where
  "is_digit c = (48 \<le> (of_char c :: nat) \<and> (of_char c :: nat) \<le> 57)"

definition is_space :: "char \<Rightarrow> bool" where
  "is_space c = ((of_char c :: nat) \<in> {9, 10, 11, 12, 13, 32})"

definition lower_char :: "char \<Rightarrow> char" where
  "lower_char c = (if is_upper c then char_of ((of_char c :: nat) + 32) else c)"

definition ToLower :: "string \<Rightarrow> string" where
  "ToLower s = map lower_char s"

definition TrimSpace :: "string \<Rightarrow> string" where
  "TrimSpace s = rev (dropWhile is_space (rev (dropWhile is_space s)))"

fun HasPrefix :: "string \<Rightarrow> string \<Rightarrow> bool" where
  "HasPrefix s [] = True"
| "HasPrefix [] (p # ps) = False"
| "HasPrefix (c # cs) (p # ps) = (c = p \<and> HasPrefix cs ps)"

definition HasSuffix :: "string \<Rightarrow> string \<Rightarrow> bool" where
  "HasSuffix s suf = HasPrefix (rev s) (rev suf)"

definition TrimSuffix :: "string \<Rightarrow> string \<Rightarrow> string" where
  "TrimSuffix s suf = (if HasSuffix s suf then take (length s - length suf) s else s)"

section \<open>Errors\<close>

text \<open>
  A Go \<open>error\<close> value: an error of the operating system or of a library, a new error
  made by \<open>fmt.Errorf\<close> with a message only, or one wrapping its cause (\<open>%w\<close>).
\<close>

datatype error =
    OsError string
  | Errorf string
  | Wrap string error

section \<open>Configuration and its validation\<close>

type_synonym uint16 = "16 word"
type_synonym uint64 = "64 word"

definition Prefix :: string where
  "Prefix = ''smbkp''"

definition LimitMinBackupsToKeep :: uint16 where
  "LimitMinBackupsToKeep = 1"

definition LimitMinFreeSpace :: string where
  "LimitMinFreeSpace = ''10mb''"

definition LimitMinFreeSpaceParsed :: uint64 where
  "LimitMinFreeSpaceParsed = 10485760"

record BackupItem =
  Source :: string
  Destination :: string
  Include :: "string list"
  Exclude :: "string list"

record Retention =
  BackupsToKeep :: uint16
  MinFreeSpace :: string
  minFreeSpaceParsed :: uint64

record Config =
  BkpDestDir :: string
  Retention :: Retention
  BkpItems :: "BackupItem list"

subsection \<open>strconv.ParseInt(s, 10, 64)\<close>

text \<open>
  The library function for base 10 and 64 bits: an optional sign, then one or more
  decimal digits; a value outside the range of \<open>int64\<close> is a range error.
\<close>

definition digit_val :: "char \<Rightarrow> int" where
  "digit_val c = (of_char c :: int) - 48"

definition decimal :: "string \<Rightarrow> int" where
  "decimal ds = foldl (\<lambda>acc c. 10 * acc + digit_val c) 0 ds"

definition ParseInt :: "string \<Rightarrow> error + int" where
  "ParseInt s =
     (let neg = (s \<noteq> [] \<and> hd s = CHR ''-'');
          ds = (if s \<noteq> [] \<and> (hd s = CHR ''+'' \<or> hd s = CHR ''-'') then tl s else s)
      in if ds = [] \<or> \<not> list_all is_digit ds then Inl (OsError ''invalid syntax'')
         else let n = decimal ds; v = (if neg then - n else n)
              in if v < - (2 ^ 63) \<or> 2 ^ 63 - 1 < v then Inl (OsError ''value out of range'')
                 else Inr v)"

subsection \<open>parseDiskSize\<close>

definition parseDiskSize :: "string \<Rightarrow> error + uint64" where
  "parseDiskSize sizeStr0 =
     (let sizeStr = ToLower (TrimSpace sizeStr0) in
      if HasSuffix sizeStr ''mb'' then
        (case ParseInt (TrimSpace (TrimSuffix sizeStr ''mb'')) of
           Inl e \<Rightarrow> Inl (Wrap ''invalid number value'' e)
         | Inr num \<Rightarrow> Inr (word_of_int num * (1024 * 1024)))
      else if HasSuffix sizeStr ''gb'' then
        (case ParseInt (TrimSpace (TrimSuffix sizeStr ''gb'')) of
           Inl e \<Rightarrow> Inl (Wrap ''invalid number value'' e)
         | Inr num \<Rightarrow> Inr (word_of_int num * (1024 * 1024 * 1024)))
      else Inl (Errorf ''invalid format: must end with mb or gb''))"

subsection \<open>Config.validate\<close>

text \<open>
  The regular expression \<open>^\d+(mb|gb)$\<close> (MinFreeSpacePattern): one or more decimal
  digits followed by exactly \<open>mb\<close> or \<open>gb\<close>.
\<close>

definition MinFreeSpacePattern_match :: "string \<Rightarrow> bool" where
  "MinFreeSpacePattern_match s =
     (let ds = takeWhile is_digit s; rest = dropWhile is_digit s
      in ds \<noteq> [] \<and> (rest = ''mb'' \<or> rest = ''gb''))"

definition Base :: "string \<Rightarrow> string" where
  "Base p =
     (if p = [] then ''.''
      else let q = rev (dropWhile (\<lambda>c. c = CHR ''/'') (rev p))
           in if q = [] then ''/''
              else rev (takeWhile (\<lambda>c. c \<noteq> CHR ''/'') (rev q)))"

definition default_destination :: "BackupItem \<Rightarrow> BackupItem" where
  "default_destination it =
     (if Destination it = [] then it\<lparr>Destination := Base (Source it)\<rparr> else it)"

text \<open>
  \<open>validate\<close> mutates the configuration in place and returns an error or nil; the
  model returns the error or the configuration as it is after a successful return.
  The statements are in the order of the source, the last assignment to
  \<open>minFreeSpaceParsed\<close> included.
\<close>

definition validate :: "Config \<Rightarrow> error + Config" where
  "validate c0 =
     (let c1 = (if BackupsToKeep (Retention c0) < LimitMinBackupsToKeep
                then c0\<lparr>Retention := (Retention c0)\<lparr>BackupsToKeep := LimitMinBackupsToKeep\<rparr>\<rparr>
                else c0)
      in if \<not> MinFreeSpacePattern_match (ToLower (MinFreeSpace (Retention c1)))
         then Inl (Errorf ''min_free_space has invalid format'')
         else
           (case parseDiskSize (MinFreeSpace (Retention c1)) of
              Inl e \<Rightarrow> Inl e
            | Inr parsed \<Rightarrow>
                let c2 = (if parsed < LimitMinFreeSpaceParsed
                          then c1\<lparr>Retention := (Retention c1)
                                   \<lparr>MinFreeSpace := LimitMinFreeSpace,
                                    minFreeSpaceParsed := LimitMinFreeSpaceParsed\<rparr>\<rparr>
                          else c1);
                    c3 = c2\<lparr>Retention := (Retention c2)\<lparr>minFreeSpaceParsed := parsed\<rparr>\<rparr>
                in Inr (c3\<lparr>BkpItems := map default_destination (BkpItems c3)\<rparr>)))"

definition NewConfig :: Config where
  "NewConfig = \<lparr>BkpDestDir = ''smbkp'',
      Retention = \<lparr>BackupsToKeep = LimitMinBackupsToKeep, MinFreeSpace = LimitMinFreeSpace,
                   minFreeSpaceParsed = LimitMinFreeSpaceParsed\<rparr>,
      BkpItems = []\<rparr>"

section \<open>Pattern matching\<close>

subsection \<open>filepath.Match\<close>

text \<open>
  The library function \<open>path/filepath.Match\<close> of the Unix build (separator \<open>/\<close>,
  backslash escapes), statement by statement, on bytes: a pattern is a sequence of
  chunks, each a run of single-character operators (literals, \<open>?\<close>, classes
  \<open>[...]\<close>) possibly preceded by stars; a star matches any run of non-separator
  characters.  A malformed pattern is the error \<open>ErrBadPattern\<close>.
\<close>

definition Separator :: char where
  "Separator = CHR ''/''"

definition backslash :: char where
  "backslash = CHR 0x5C"

definition ErrBadPattern :: error where
  "ErrBadPattern = OsError ''syntax error in pattern''"

text \<open>
  \<open>scanChunk\<close> takes the stars off the front of the pattern and cuts the chunk at
  the index \<open>i\<close> where the scan loop stops: at the next star outside a class, or at
  the end of the pattern.
\<close>

fun scanChunk_index :: "bool \<Rightarrow> string \<Rightarrow> nat" where
  "scanChunk_index inrange [] = 0"
| "scanChunk_index inrange (c # cs) =
     (if c = backslash then
        (case cs of [] \<Rightarrow> 1 | d # ds \<Rightarrow> 2 + scanChunk_index inrange ds)
      else if c = CHR ''['' then 1 + scanChunk_index True cs
      else if c = CHR '']'' then 1 + scanChunk_index False cs
      else if c = CHR ''*'' \<and> \<not> inrange then 0
      else 1 + scanChunk_index inrange cs)"

definition scanChunk :: "string \<Rightarrow> bool \<times> string \<times> string" where
  "scanChunk pattern0 =
     (let star = (pattern0 \<noteq> [] \<and> hd pattern0 = CHR ''*'');
          pattern = dropWhile (\<lambda>c. c = CHR ''*'') pattern0;
          i = scanChunk_index False pattern
      in (star, take i pattern, drop i pattern))"

definition getEsc :: "string \<Rightarrow> error + (char \<times> string)" where
  "getEsc chunk =
     (if chunk = [] \<or> hd chunk = CHR ''-'' \<or> hd chunk = CHR '']'' then Inl ErrBadPattern
      else let chunk1 = (if hd chunk = backslash then tl chunk else chunk)
           in if chunk1 = [] then Inl ErrBadPattern
              else if tl chunk1 = [] then Inl ErrBadPattern
              else Inr (hd chunk1, tl chunk1))"

lemma getEsc_shorter: "getEsc chunk = Inr (r, nchunk) \<Longrightarrow> length nchunk < length chunk"
  by (cases chunk) (auto simp: getEsc_def Let_def split: if_splits)

lemma getEsc_nonempty: "getEsc chunk = Inr (r, nchunk) \<Longrightarrow> nchunk \<noteq> []"
  by (auto simp: getEsc_def Let_def split: if_splits)

text \<open>The loop over the ranges of one character class, for the rune \<open>r\<close> read.\<close>

function class_ranges :: "char \<Rightarrow> bool \<Rightarrow> nat \<Rightarrow> string \<Rightarrow> error + (bool \<times> string)" where
  "class_ranges r match nrange chunk =
     (if chunk \<noteq> [] \<and> hd chunk = CHR '']'' \<and> 0 < nrange then Inr (match, tl chunk)
      else
        (case getEsc chunk of
           Inl e \<Rightarrow> Inl e
         | Inr (lo, chunk1) \<Rightarrow>
             if hd chunk1 = CHR ''-'' then
               (case getEsc (tl chunk1) of
                  Inl e \<Rightarrow> Inl e
                | Inr (hi, chunk2) \<Rightarrow>
                    class_ranges r (match \<or> (lo \<le> r \<and> r \<le> hi)) (nrange + 1) chunk2)
             else class_ranges r (match \<or> (lo \<le> r \<and> r \<le> lo)) (nrange + 1) chunk1))"
  by pat_completeness auto
termination
proof (relation "measure (\<lambda>(r, match, nrange, chunk). length chunk)")
  show "wf (measure (\<lambda>(r, match, nrange, chunk). length chunk))" by simp
next
  fix r :: char and match :: bool and nrange :: nat and chunk x2 :: string and x :: "char \<times> string"
    and lo x2a x2b hi chunk2
  assume "getEsc chunk = Inr x" "(lo, x2) = x" "hd x2 = CHR ''-''"
    "getEsc (tl x2) = Inr x2a" "(hi, chunk2) = x2a"
  then have "length x2 < length chunk" "length chunk2 < length (tl x2)"
    using getEsc_shorter by metis+
  then show "((r, match \<or> lo \<le> r \<and> r \<le> hi, nrange + 1, chunk2), r, match, nrange, chunk)
      \<in> measure (\<lambda>(r, match, nrange, chunk). length chunk)"
    by simp
next
  fix r :: char and match :: bool and nrange :: nat and chunk x2 :: string and x :: "char \<times> string"
    and lo
  assume "getEsc chunk = Inr x" "(lo, x2) = x"
  then have "length x2 < length chunk"
    using getEsc_shorter by metis
  then show "((r, match \<or> lo \<le> r \<and> r \<le> lo, nrange + 1, x2), r, match, nrange, chunk)
      \<in> measure (\<lambda>(r, match, nrange, chunk). length chunk)"
    by simp
qed

lemma class_ranges_shorter:
  "class_ranges r match nrange chunk = Inr (m, rest) \<Longrightarrow> length rest < length chunk"
proof (induction r match nrange chunk rule: class_ranges.induct)
  case (1 r match nrange chunk)
  show ?case
  proof (cases "chunk \<noteq> [] \<and> hd chunk = CHR '']'' \<and> 0 < nrange")
    case True
    with "1.prems" show ?thesis by (cases chunk) auto
  next
    case False
    then obtain lo chunk1 where e1: "getEsc chunk = Inr (lo, chunk1)"
      using "1.prems" by (auto split: sum.splits)
    have l1: "length chunk1 < length chunk" using e1 by (rule getEsc_shorter)
    show ?thesis
    proof (cases "hd chunk1 = CHR ''-''")
      case dash: True
      then obtain hi chunk2 where e2: "getEsc (tl chunk1) = Inr (hi, chunk2)"
        using "1.prems" False e1 by (auto split: sum.splits)
      have "length chunk2 < length (tl chunk1)" using e2 by (rule getEsc_shorter)
      moreover have "length rest < length chunk2"
        using "1.IH"(1)[OF False e1 refl dash e2 refl] "1.prems" False e1 dash e2 by simp
      ultimately show ?thesis using l1 by simp
    next
      case nodash: False
      have "length rest < length chunk1"
        using "1.IH"(2)[OF False e1 refl nodash] "1.prems" False e1 nodash by simp
      then show ?thesis using l1 by simp
    qed
  qed
qed

text \<open>
  \<open>matchChunk\<close>: whether the chunk matches a prefix of \<open>s\<close>, and the rest of \<open>s\<close>
  then.  After the match has failed the loop goes on through the chunk, to report a
  malformed pattern, and no longer reads \<open>s\<close>.
\<close>

function matchChunk_loop :: "bool \<Rightarrow> string \<Rightarrow> string \<Rightarrow> error + string option" where
  "matchChunk_loop failed0 [] s = Inr (if failed0 then None else Some s)"
| "matchChunk_loop failed0 (c # chunk) s =
     (let failed = (failed0 \<or> s = []) in
      if c = CHR ''['' then
        (let r = (if failed then CHR 0x00 else hd s);
             s1 = (if failed then s else tl s);
             negated = (chunk \<noteq> [] \<and> hd chunk = CHR ''^'');
             chunk1 = (if negated then tl chunk else chunk)
         in case class_ranges r False 0 chunk1 of
              Inl e \<Rightarrow> Inl e
            | Inr (match, chunk2) \<Rightarrow> matchChunk_loop (failed \<or> match = negated) chunk2 s1)
      else if c = CHR ''?'' then
        (if failed then matchChunk_loop failed chunk s
         else matchChunk_loop (hd s = Separator) chunk (tl s))
      else if c = backslash then
        (case chunk of
           [] \<Rightarrow> Inl ErrBadPattern
         | d # chunk' \<Rightarrow>
             if failed then matchChunk_loop failed chunk' s
             else matchChunk_loop (d \<noteq> hd s) chunk' (tl s))
      else
        (if failed then matchChunk_loop failed chunk s
         else matchChunk_loop (c \<noteq> hd s) chunk (tl s)))"
  by pat_completeness auto
termination
proof (relation "measure (\<lambda>(failed, chunk, s). length chunk)", goal_cases)
  case (2 failed0 c chunk s failed r s1 negated chunk1 x match chunk2)
  then have "length chunk2 < length chunk1"
    using class_ranges_shorter by metis
  moreover have "length chunk1 \<le> length chunk"
    using 2 by (cases chunk) auto
  ultimately show ?case by simp
qed auto

definition matchChunk :: "string \<Rightarrow> string \<Rightarrow> error + string option" where
  "matchChunk chunk s = matchChunk_loop False chunk s"

text \<open>
  The inner loop of \<open>Match\<close> after a star: the chunk is tried after skipping one
  more byte of the name each time, never a separator; \<open>final\<close> says that the
  pattern ends with this chunk, when only a match of the whole rest counts.
\<close>

fun star_search :: "string \<Rightarrow> bool \<Rightarrow> string \<Rightarrow> error + string option" where
  "star_search chunk final [] = Inr None"
| "star_search chunk final (c # cs) =
     (if c = Separator then Inr None
      else
        (case matchChunk chunk cs of
           Inl e \<Rightarrow> Inl e
         | Inr (Some t) \<Rightarrow>
             if final \<and> t \<noteq> [] then star_search chunk final cs else Inr (Some t)
         | Inr None \<Rightarrow> star_search chunk final cs))"

lemma scanChunk_index_pos: "c \<noteq> CHR ''*'' \<Longrightarrow> 0 < scanChunk_index False (c # cs)"
  by (simp split: list.splits)

lemma scanChunk_shorter:
  assumes "pattern \<noteq> []" and "scanChunk pattern = (star, chunk, rest)"
  shows "length rest < length pattern"
proof -
  let ?p = "dropWhile (\<lambda>c. c = CHR ''*'') pattern"
  have rest: "rest = drop (scanChunk_index False ?p) ?p"
    using assms(2) by (simp add: scanChunk_def Let_def)
  show ?thesis
  proof (cases "hd pattern = CHR ''*''")
    case True
    with assms(1) have "length ?p < length pattern"
      by (cases pattern) (auto intro: le_imp_less_Suc length_dropWhile_le)
    then show ?thesis unfolding rest by simp
  next
    case False
    with assms(1) obtain c cs where p: "pattern = c # cs" "c \<noteq> CHR ''*''"
      by (cases pattern) auto
    then have "?p = pattern" by simp
    moreover have "0 < scanChunk_index False (c # cs)"
      using p(2) by (rule scanChunk_index_pos)
    ultimately show ?thesis
      unfolding rest using p(1) by (simp del: scanChunk_index.simps)
  qed
qed
text \<open>
  One round of the loop of \<open>Match\<close> over the chunks of the pattern: either the
  result of \<open>Match\<close> (\<open>Inl\<close>), or the pattern and name of the next round.
\<close>

definition Match_step :: "string \<Rightarrow> string \<Rightarrow> (error + bool) + (string \<times> string)" where
  "Match_step pattern name =
     (case scanChunk pattern of
        (star, chunk, rest) \<Rightarrow>
          if star \<and> chunk = [] then Inl (Inr (Separator \<notin> set name))
          else
            (case matchChunk chunk name of
               Inl e \<Rightarrow> Inl (Inl e)
             | Inr (Some t) \<Rightarrow>
                 if t = [] \<or> rest \<noteq> [] then Inr (rest, t)
                 else if star then
                   (case star_search chunk (rest = []) name of
                      Inl e \<Rightarrow> Inl (Inl e)
                    | Inr None \<Rightarrow> Inl (Inr False)
                    | Inr (Some t') \<Rightarrow> Inr (rest, t'))
                 else Inl (Inr False)
             | Inr None \<Rightarrow>
                 if star then
                   (case star_search chunk (rest = []) name of
                      Inl e \<Rightarrow> Inl (Inl e)
                    | Inr None \<Rightarrow> Inl (Inr False)
                    | Inr (Some t') \<Rightarrow> Inr (rest, t'))
                 else Inl (Inr False)))"

lemma Match_step_shorter:
  assumes "pattern \<noteq> []" and "Match_step pattern name = Inr (rest, t)"
  shows "length rest < length pattern"
proof -
  obtain star chunk rest' where sc: "scanChunk pattern = (star, chunk, rest')"
    by (cases "scanChunk pattern") auto
  with assms(2) have "rest = rest'"
    by (auto simp: Match_step_def split: if_splits sum.splits option.splits)
  with sc assms(1) show ?thesis
    using scanChunk_shorter by simp
qed

function Match :: "string \<Rightarrow> string \<Rightarrow> error + bool" where
  "Match pattern name =
     (if pattern = [] then Inr (name = [])
      else
        (case Match_step pattern name of
           Inl result \<Rightarrow> result
         | Inr (rest, t) \<Rightarrow> Match rest t))"
  by pat_completeness auto
termination
proof (relation "measure (\<lambda>(pattern, name). length pattern)")
  show "wf (measure (\<lambda>(pattern, name). length pattern))" by simp
next
  fix pattern name rest t :: string and x :: "string \<times> string"
  assume "pattern \<noteq> []" and "Match_step pattern name = Inr x" and "(rest, t) = x"
  then have "length rest < length pattern"
    using Match_step_shorter [of pattern name rest t] by simp
  then show "((rest, t), pattern, name) \<in> measure (\<lambda>(pattern, name). length pattern)"
    by simp
qed

subsection \<open>BackupApp.shouldInclude\<close>

text \<open>
  \<open>matched, _ := filepath.Match(pattern, path)\<close>: the error is dropped, and
  \<open>matched\<close> is false with it.
\<close>

definition matched :: "string \<Rightarrow> string \<Rightarrow> bool" where
  "matched pattern path = (case Match pattern path of Inl e \<Rightarrow> False | Inr b \<Rightarrow> b)"

fun included_by :: "string \<Rightarrow> string list \<Rightarrow> bool" where
  "included_by path [] = False"
| "included_by path (pattern # rest) =
     (if matched pattern path then True
      else if HasPrefix path (pattern @ [Separator]) then True
      else included_by path rest)"

fun excluded_by :: "string \<Rightarrow> string list \<Rightarrow> bool" where
  "excluded_by path [] = False"
| "excluded_by path (pattern # rest) =
     (if matched pattern path then True
      else if HasPrefix path (pattern @ [Separator]) then True
      else excluded_by path rest)"

definition shouldInclude :: "string \<Rightarrow> string list \<Rightarrow> string list \<Rightarrow> bool" where
  "shouldInclude path include exclude =
     (if 0 < length include \<and> \<not> included_by path include then False
      else if excluded_by path exclude then False
      else True)"

section \<open>Progress\<close>

record progress =
  processedItems :: int
  lastUpdate :: int
  drawn :: "int list"

text \<open>
  The variables of one item's progress display: the two counters that the callback
  closes over, and the percentages drawn so far (each redraw prints the bar of one
  percentage).  The source computes \<open>int(float64(processedItems) * 100 /
  float64(totalItems))\<close>; both counts are integers far below \<open>2^53\<close>, where the
  conversions and the product are exact and the correctly rounded quotient
  truncates to the integer quotient, which is what \<open>percentage\<close> is.
\<close>

definition percentage :: "int \<Rightarrow> int \<Rightarrow> int" where
  "percentage processed totalItems = (processed * 100) div totalItems"

definition progressCb :: "int \<Rightarrow> progress \<Rightarrow> progress" where
  "progressCb totalItems p =
     (let p1 = p\<lparr>processedItems := processedItems p + 1\<rparr> in
      if 0 < totalItems then
        (let pct = percentage (processedItems p1) totalItems in
         if lastUpdate p1 < pct then p1\<lparr>lastUpdate := pct, drawn := drawn p1 @ [pct]\<rparr>
         else p1)
      else p1)"

definition progress_init :: progress where
  "progress_init = \<lparr>processedItems = 0, lastUpdate = - 1, drawn = []\<rparr>"

section \<open>File trees\<close>

datatype node =
    File
  | Dir "(string \<times> node) list"
  | DirUnreadable error
  | LinkToDir
  | LinkToFile
  | LinkBroken error
  | NoLstat error

datatype walk_res = Continue | SkipDir | Fail error

fun IsDir :: "node \<Rightarrow> bool" where
  "IsDir (Dir entries) = True"
| "IsDir (DirUnreadable e) = True"
| "IsDir node = False"

fun lstat_failed :: "node \<Rightarrow> bool" where
  "lstat_failed (NoLstat e) = True"
| "lstat_failed node = False"

definition relPath :: "string list \<Rightarrow> string" where
  "relPath names = (if names = [] then ''.'' else foldr (\<lambda>n acc. if acc = [] then n else n @ [Separator] @ acc) names [])"

fun walk :: "(string list \<Rightarrow> node \<Rightarrow> 's \<Rightarrow> walk_res \<times> 's) \<Rightarrow> string list \<Rightarrow> node \<Rightarrow> 's \<Rightarrow> walk_res \<times> 's"
and walk_entries :: "(string list \<Rightarrow> node \<Rightarrow> 's \<Rightarrow> walk_res \<times> 's) \<Rightarrow> string list \<Rightarrow> (string \<times> node) list \<Rightarrow> 's \<Rightarrow> walk_res \<times> 's" where
  "walk walkFn path (Dir entries) st =
     (case walkFn path (Dir entries) st of
        (Continue, st1) \<Rightarrow> walk_entries walkFn path entries st1
      | (r, st1) \<Rightarrow> (r, st1))"
| "walk walkFn path File st = walkFn path File st"
| "walk walkFn path (DirUnreadable e) st = walkFn path (DirUnreadable e) st"
| "walk walkFn path LinkToDir st = walkFn path LinkToDir st"
| "walk walkFn path LinkToFile st = walkFn path LinkToFile st"
| "walk walkFn path (LinkBroken e) st = walkFn path (LinkBroken e) st"
| "walk walkFn path (NoLstat e) st = walkFn path (NoLstat e) st"
| "walk_entries walkFn path [] st = (Continue, st)"
| "walk_entries walkFn path ((name, node) # rest) st =
     (case walk walkFn (path @ [name]) node st of
        (Fail e, st1) \<Rightarrow> (Fail e, st1)
      | (SkipDir, st1) \<Rightarrow>
          if IsDir node \<or> lstat_failed node then walk_entries walkFn path rest st1
          else (SkipDir, st1)
      | (Continue, st1) \<Rightarrow> walk_entries walkFn path rest st1)"


section \<open>The world outside the program\<close>

text \<open>
  The results of the system calls are parameters of the model: the source trees by
  path, the failures of the operations on the destination (by the destination of the
  item and the path relative to it), the predicate \<open>isWindowsProtectedPath\<close> (its
  source is not part of the repository files at hand), the free space of the
  destination, the entries of the backup root directory before the run, and the
  failures of listing it and of removing an entry of it.
\<close>

datatype copy_result = Copied | FailedBeforeWrite error | FailedAfterWrite error

record world =
  sources :: "string \<Rightarrow> node option"
  isWindowsProtectedPath :: "string \<Rightarrow> error \<Rightarrow> bool"
  MkdirAll :: "string \<Rightarrow> string \<Rightarrow> error option"
  copyFile_result :: "string \<Rightarrow> string \<Rightarrow> copy_result"
  Symlink :: "string \<Rightarrow> string \<Rightarrow> error option"
  getFreeSpace :: "error + uint64"
  MkdirAll_run :: "error option"
  rootEntries :: "(string \<times> bool) list"
  ReadDir_err :: "error option"
  RemoveAll_err :: "string \<Rightarrow> error option"

definition ErrNotExist :: error where
  "ErrNotExist = OsError ''file does not exist''"

text \<open>\<open>os.Stat\<close> follows symbolic links; \<open>os.Lstat\<close>, which the walk uses, does not.\<close>

definition os_Stat :: "world \<Rightarrow> string \<Rightarrow> error + node" where
  "os_Stat w path =
     (case sources w path of
        None \<Rightarrow> Inl ErrNotExist
      | Some (NoLstat e) \<Rightarrow> Inl e
      | Some (LinkBroken e) \<Rightarrow> Inl e
      | Some node \<Rightarrow> Inr node)"

fun stat_IsDir :: "node \<Rightarrow> bool" where
  "stat_IsDir LinkToDir = True"
| "stat_IsDir node = IsDir node"

section \<open>Copying\<close>

record copy_state =
  created :: "string list"
  progress :: progress

definition done_entry :: "(progress \<Rightarrow> progress) \<Rightarrow> string \<Rightarrow> copy_state \<Rightarrow> copy_state" where
  "done_entry cb rel st =
     st\<lparr>created := created st @ [rel], progress := cb (progress st)\<rparr>"

subsection \<open>BackupApp.copyFile\<close>

text \<open>
  The steps before the callback (creating the parent directory, opening, creating,
  writing) fail together as \<open>FailedBeforeWrite\<close>; those after it (reading the mode,
  \<open>chmod\<close>) as \<open>FailedAfterWrite\<close>.
\<close>

definition copyFile ::
  "world \<Rightarrow> (progress \<Rightarrow> progress) \<Rightarrow> string \<Rightarrow> string \<Rightarrow> copy_state \<Rightarrow> error option \<times> copy_state" where
  "copyFile w cb dest rel st =
     (case copyFile_result w dest rel of
        FailedBeforeWrite e \<Rightarrow> (Some e, st)
      | FailedAfterWrite e \<Rightarrow> (Some e, done_entry cb rel st)
      | Copied \<Rightarrow> (None, done_entry cb rel st))"

subsection \<open>BackupApp.copyDirectory\<close>

definition walk_error :: "world \<Rightarrow> string \<Rightarrow> error \<Rightarrow> walk_res" where
  "walk_error w rel e = (if isWindowsProtectedPath w rel e then Continue else Fail e)"

definition of_error :: "error option \<Rightarrow> walk_res" where
  "of_error r = (case r of None \<Rightarrow> Continue | Some e \<Rightarrow> Fail e)"

text \<open>The function passed to \<open>filepath.Walk\<close> by \<open>copyDirectory\<close>.\<close>

fun copy_walkFn ::
  "world \<Rightarrow> (progress \<Rightarrow> progress) \<Rightarrow> string \<Rightarrow> string list \<Rightarrow> string list \<Rightarrow>
   string list \<Rightarrow> node \<Rightarrow> copy_state \<Rightarrow> walk_res \<times> copy_state" where
  "copy_walkFn w cb dest include exclude path (NoLstat e) st =
     (walk_error w (relPath path) e, st)"
| "copy_walkFn w cb dest include exclude path (DirUnreadable e) st =
     (walk_error w (relPath path) e, st)"
| "copy_walkFn w cb dest include exclude path node st =
     (let rel = relPath path in
      if rel = ''.'' then (Continue, st)
      else if \<not> shouldInclude rel include exclude then
        (if IsDir node then (SkipDir, st) else (Continue, st))
      else if IsDir node then
        (case MkdirAll w dest rel of
           None \<Rightarrow> (Continue, done_entry cb rel st)
         | Some e \<Rightarrow> (Fail e, st))
      else
        (case node of
           LinkBroken e \<Rightarrow> (Fail e, st)
         | LinkToDir \<Rightarrow>
             (case Symlink w dest rel of
                None \<Rightarrow> (Continue, st\<lparr>created := created st @ [rel]\<rparr>)
              | Some e \<Rightarrow> (Fail e, st))
         | _ \<Rightarrow> (case copyFile w cb dest rel st of (r, st1) \<Rightarrow> (of_error r, st1))))"

definition Walk ::
  "(string list \<Rightarrow> node \<Rightarrow> 's \<Rightarrow> walk_res \<times> 's) \<Rightarrow> node \<Rightarrow> 's \<Rightarrow> error option \<times> 's" where
  "Walk walkFn src st =
     (case walk walkFn [] src st of
        (Fail e, st1) \<Rightarrow> (Some e, st1)
      | (r, st1) \<Rightarrow> (None, st1))"

definition copyDirectory ::
  "world \<Rightarrow> (progress \<Rightarrow> progress) \<Rightarrow> string \<Rightarrow> string list \<Rightarrow> string list \<Rightarrow>
   node \<Rightarrow> copy_state \<Rightarrow> error option \<times> copy_state" where
  "copyDirectory w cb dest include exclude src st =
     Walk (copy_walkFn w cb dest include exclude) src st"

subsection \<open>BackupApp.countTotalItems\<close>

fun count_walkFn ::
  "world \<Rightarrow> string list \<Rightarrow> string list \<Rightarrow> string list \<Rightarrow> node \<Rightarrow> int \<Rightarrow> walk_res \<times> int" where
  "count_walkFn w include exclude path (NoLstat e) totalItems =
     (walk_error w (relPath path) e, totalItems)"
| "count_walkFn w include exclude path (DirUnreadable e) totalItems =
     (walk_error w (relPath path) e, totalItems)"
| "count_walkFn w include exclude path node totalItems =
     (let rel = relPath path in
      if rel = ''.'' then (Continue, totalItems)
      else if \<not> shouldInclude rel include exclude then
        (if IsDir node then (SkipDir, totalItems) else (Continue, totalItems))
      else (Continue, totalItems + 1))"

definition countTotalItems :: "world \<Rightarrow> BackupItem \<Rightarrow> error + int" where
  "countTotalItems w item =
     (case os_Stat w (Source item) of
        Inl e \<Rightarrow> Inl e
      | Inr src \<Rightarrow>
          if \<not> stat_IsDir src then Inr 1
          else
            (case Walk (count_walkFn w (Include item) (Exclude item)) src 0 of
               (Some e, totalItems) \<Rightarrow> Inl e
             | (None, totalItems) \<Rightarrow> Inr totalItems))"

subsection \<open>BackupApp.backupItem\<close>

definition copy_init :: copy_state where
  "copy_init = \<lparr>created = [], progress = progress_init\<rparr>"

definition backupItem ::
  "world \<Rightarrow> BackupItem \<Rightarrow> (progress \<Rightarrow> progress) \<Rightarrow> error option \<times> copy_state" where
  "backupItem w item cb =
     (case os_Stat w (Source item) of
        Inl e \<Rightarrow> (Some (Wrap ''accessing source path'' e), copy_init)
      | Inr src \<Rightarrow>
          if stat_IsDir src then
            (case MkdirAll w (Destination item) ''.'' of
               Some e \<Rightarrow> (Some (Wrap ''creating destination directory'' e), copy_init)
             | None \<Rightarrow>
                 copyDirectory w cb (Destination item) (Include item) (Exclude item)
                   src copy_init)
          else copyFile w cb (Destination item) ''.'' copy_init)"

section \<open>Retention cleanup\<close>

text \<open>
  A directory entry as \<open>os.ReadDir\<close> reports it: its name and whether it is a
  directory.  \<open>os.ReadDir\<close> returns the entries sorted by file name (the order of
  strings, byte by byte), or an error.
\<close>

type_synonym DirEntry = "string \<times> bool"

definition os_ReadDir :: "world \<Rightarrow> DirEntry list \<Rightarrow> error + DirEntry list" where
  "os_ReadDir w entries =
     (case ReadDir_err w of Some e \<Rightarrow> Inl e | None \<Rightarrow> Inr (sort_key fst entries))"

definition is_backup_dir :: "DirEntry \<Rightarrow> bool" where
  "is_backup_dir entry = (snd entry \<and> HasPrefix (fst entry) (Prefix @ ''-''))"

text \<open>
  The loop of \<open>os.RemoveAll\<close> calls over the names chosen: a failure is logged and
  the loop goes on; a success removes the entry of that name.
\<close>

fun remove_loop :: "world \<Rightarrow> string list \<Rightarrow> DirEntry list \<Rightarrow> DirEntry list" where
  "remove_loop w [] entries = entries"
| "remove_loop w (name # names) entries =
     remove_loop w names
       (case RemoveAll_err w name of
          None \<Rightarrow> filter (\<lambda>entry. fst entry \<noteq> name) entries
        | Some e \<Rightarrow> entries)"

text \<open>
  \<open>cleanupOldBackups\<close> on the entries of the backup root: the error returned (always
  nil), the names passed to \<open>os.RemoveAll\<close> in order, and the entries left.
\<close>

definition cleanupOldBackups ::
  "world \<Rightarrow> uint16 \<Rightarrow> DirEntry list \<Rightarrow> error option \<times> string list \<times> DirEntry list" where
  "cleanupOldBackups w keep entries =
     (case os_ReadDir w entries of
        Inl e \<Rightarrow> (None, [], entries)
      | Inr listed \<Rightarrow>
          (let backupDirs = filter is_backup_dir listed in
           if length backupDirs \<le> unat keep then (None, [], entries)
           else
             (let toDelete = length backupDirs - unat keep;
                  names = map fst (take toDelete backupDirs)
              in (None, names, remove_loop w names entries))))"

lemma set_remove_loop:
  "set (remove_loop w names entries) =
     {entry \<in> set entries. fst entry \<notin> {n \<in> set names. RemoveAll_err w n = None}}"
  by (induction names arbitrary: entries) (auto split: option.splits)

definition backup_names :: "DirEntry list \<Rightarrow> string list" where
  "backup_names entries = map fst (filter is_backup_dir (sort_key fst entries))"

lemma backup_names_props:
  assumes "distinct (map fst entries)"
  shows "sorted_wrt (<) (backup_names entries)"
    and "set (backup_names entries) = fst ` {entry \<in> set entries. is_backup_dir entry}"
proof -
  have "sorted (map fst (sort_key fst entries))" by simp
  then have s: "sorted (backup_names entries)"
    unfolding backup_names_def by (rule sorted_filter)
  have "distinct (map fst (sort_key fst entries))"
    using assms by (metis distinct_map distinct_sort set_sort)
  then have d: "distinct (backup_names entries)"
    unfolding backup_names_def by (rule distinct_map_filter)
  from s d show "sorted_wrt (<) (backup_names entries)"
    by (simp add: strict_sorted_iff)
  show "set (backup_names entries) = fst ` {entry \<in> set entries. is_backup_dir entry}"
    by (auto simp: backup_names_def)
qed

lemma cleanup_removed:
  "fst (snd (cleanupOldBackups w keep entries)) =
     (if ReadDir_err w = None
      then take (length (backup_names entries) - unat keep) (backup_names entries) else [])"
  by (auto simp: cleanupOldBackups_def os_ReadDir_def backup_names_def Let_def take_map
           split: option.splits)

lemma cleanup_remaining:
  "snd (snd (cleanupOldBackups w keep entries)) =
     remove_loop w (fst (snd (cleanupOldBackups w keep entries))) entries"
  by (auto simp: cleanupOldBackups_def os_ReadDir_def Let_def split: option.splits)

lemma cleanup_error: "fst (cleanupOldBackups w keep entries) = None"
  by (auto simp: cleanupOldBackups_def os_ReadDir_def Let_def split: option.splits)

section \<open>What the tree copy creates\<close>

text \<open>
  Entry names as a directory listing gives them: not empty, not \<open>.\<close>, and free of
  the separator.  \<open>wf_node\<close> says so of every name in a tree.  The invariant of the
  walk of \<open>copyDirectory\<close>: every path created is the path of an entry that passed
  \<open>shouldInclude\<close> and all of whose ancestors below the root passed it too, since
  the walk does not descend into a directory that the filter rejected.
\<close>

lemma HasPrefix_iff: "HasPrefix s p \<longleftrightarrow> (\<exists>t. s = p @ t)"
  by (induction s p rule: HasPrefix.induct) auto

definition name_ok :: "string \<Rightarrow> bool" where
  "name_ok n = (n \<noteq> [] \<and> n \<noteq> ''.'' \<and> Separator \<notin> set n)"

fun wf_node :: "node \<Rightarrow> bool"
and wf_entries :: "(string \<times> node) list \<Rightarrow> bool" where
  "wf_node (Dir entries) = wf_entries entries"
| "wf_node File = True"
| "wf_node (DirUnreadable e) = True"
| "wf_node LinkToDir = True"
| "wf_node LinkToFile = True"
| "wf_node (LinkBroken e) = True"
| "wf_node (NoLstat e) = True"
| "wf_entries [] = True"
| "wf_entries ((name, node) # rest) = (name_ok name \<and> wf_node node \<and> wf_entries rest)"

lemma relPath_Cons:
  "relPath (n # ns) = (if ns = [] then n else n @ [Separator] @ relPath ns)" if "list_all name_ok (n # ns)"
proof (cases ns)
  case Nil
  then show ?thesis by (simp add: relPath_def)
next
  case (Cons m ms)
  have "foldr (\<lambda>n acc. if acc = [] then n else n @ [Separator] @ acc) ks [] \<noteq> []"
    if "ks \<noteq> []" "list_all name_ok ks" for ks
    using that by (induction ks) (auto simp: name_ok_def)
  from this[of ns] that Cons show ?thesis
    by (simp add: relPath_def)
qed

lemma relPath_not_dot: "list_all name_ok ns \<Longrightarrow> ns \<noteq> [] \<Longrightarrow> relPath ns \<noteq> ''.''"
proof (cases ns)
  case Nil
  assume "ns \<noteq> []" with Nil show ?thesis by simp
next
  case (Cons n ms)
  assume ok: "list_all name_ok ns"
  show ?thesis
  proof (cases ms)
    case Nil
    with Cons ok show ?thesis by (simp add: relPath_def name_ok_def)
  next
    case (Cons m ms')
    with \<open>ns = n # ms\<close> ok have "relPath ns = n @ [Separator] @ relPath ms"
      using relPath_Cons[of n ms] by simp
    moreover have "n \<noteq> []" using ok \<open>ns = n # ms\<close> by (simp add: name_ok_def)
    ultimately show ?thesis by (cases n) (auto simp: Separator_def)
  qed
qed

lemma prefix_sep_decompose:
  assumes "list_all name_ok ns" and "relPath ns = d @ [Separator] @ t" and "ns \<noteq> []"
  shows "\<exists>k. 0 < k \<and> k < length ns \<and> d = relPath (take k ns)"
  using assms
proof (induction ns arbitrary: d)
  case Nil
  then show ?case by simp
next
  case (Cons n ns)
  have n: "Separator \<notin> set n" using Cons.prems(1) by (simp add: name_ok_def)
  show ?case
  proof (cases "ns = []")
    case True
    with Cons.prems have "n = d @ [Separator] @ t" by (simp add: relPath_def)
    with n show ?thesis by auto
  next
    case False
    then have eq: "n @ [Separator] @ relPath ns = d @ [Separator] @ t"
      using Cons.prems relPath_Cons[of n ns] by simp
    then consider (a) u where "n @ u = d" "[Separator] @ relPath ns = u @ [Separator] @ t"
      | (b) u where "n = d @ u" "u @ [Separator] @ relPath ns = [Separator] @ t"
      by (auto simp: append_eq_append_conv2)
    then show ?thesis
    proof cases
      case a
      show ?thesis
      proof (cases u)
        case Nil
        with a have "d = relPath (take 1 (n # ns))" by (simp add: relPath_def)
        with False show ?thesis by (intro exI[of _ 1]) auto
      next
        case (Cons c u')
        with a have c: "c = Separator" and r: "relPath ns = u' @ [Separator] @ t" by auto
        from Cons.IH[OF _ r False] Cons.prems(1)
        obtain k where k: "0 < k" "k < length ns" "u' = relPath (take k ns)" by auto
        have "list_all name_ok (n # take k ns)"
          using Cons.prems(1) by (auto simp: list_all_iff dest: in_set_takeD)
        moreover have "take k ns \<noteq> []" using k False by auto
        ultimately have "relPath (n # take k ns) = n @ [Separator] @ relPath (take k ns)"
          using relPath_Cons[of n "take k ns"] by simp
        with a Cons c k have "d = relPath (take (Suc k) (n # ns))" by simp
        with k show ?thesis by (intro exI[of _ "Suc k"]) auto
      qed
    next
      case b
      show ?thesis
      proof (cases u)
        case Nil
        with b have "d = relPath (take 1 (n # ns))" by (simp add: relPath_def)
        with False show ?thesis by (intro exI[of _ 1]) auto
      next
        case (Cons c u')
        with b have "c = Separator" by simp
        with b Cons n show ?thesis by auto
      qed
    qed
  qed
qed


definition incl_chain :: "string list \<Rightarrow> string list \<Rightarrow> string list \<Rightarrow> bool" where
  "incl_chain include exclude ns =
     (\<forall>k. 0 < k \<and> k \<le> length ns \<longrightarrow> shouldInclude (relPath (take k ns)) include exclude)"

definition ok_path :: "string list \<Rightarrow> string list \<Rightarrow> string \<Rightarrow> bool" where
  "ok_path include exclude q =
     (\<exists>ns. ns \<noteq> [] \<and> list_all name_ok ns \<and> q = relPath ns \<and> incl_chain include exclude ns)"

definition created_ok :: "string list \<Rightarrow> string list \<Rightarrow> copy_state \<Rightarrow> bool" where
  "created_ok include exclude st = (\<forall>q \<in> set (created st). ok_path include exclude q)"

lemma incl_chain_Nil: "incl_chain include exclude []"
  by (simp add: incl_chain_def)

lemma incl_chain_snoc:
  assumes "incl_chain include exclude (butlast path)" and "path \<noteq> []"
    and "shouldInclude (relPath path) include exclude"
  shows "incl_chain include exclude path"
  unfolding incl_chain_def
proof (intro allI impI)
  fix k assume k: "0 < k \<and> k \<le> length path"
  show "shouldInclude (relPath (take k path)) include exclude"
  proof (cases "k = length path")
    case True
    with assms(3) show ?thesis by simp
  next
    case False
    with k have lt: "k < length path" by simp
    then have "k \<le> length (butlast path)" by simp
    moreover from lt have "take k (butlast path) = take k path"
      by (rule take_butlast)
    ultimately show ?thesis
      using assms(1) k unfolding incl_chain_def by metis
  qed
qed

lemma copy_walkFn_created:
  assumes "copy_walkFn w cb dest include exclude path node st = (r, st1)"
  shows "created st1 = created st \<or>
    (created st1 = created st @ [relPath path] \<and> relPath path \<noteq> ''.'' \<and>
     shouldInclude (relPath path) include exclude)"
  using assms
  by (cases node)
     (auto simp: Let_def done_entry_def copyFile_def
           split: if_splits option.splits copy_result.splits)

lemma copy_walkFn_Continue_Dir:
  assumes "copy_walkFn w cb dest include exclude path (Dir es) st = (Continue, st1)"
    and "relPath path \<noteq> ''.''"
  shows "shouldInclude (relPath path) include exclude"
  using assms by (auto simp: Let_def split: if_splits option.splits)


lemma copy_walkFn_created_ok:
  assumes "copy_walkFn w cb dest include exclude path node st = (r, st1)"
    and "list_all name_ok path" and "incl_chain include exclude (butlast path)"
    and "created_ok include exclude st"
  shows "created_ok include exclude st1"
proof -
  from copy_walkFn_created[OF assms(1)]
  consider "created st1 = created st"
    | "created st1 = created st @ [relPath path]" "relPath path \<noteq> ''.''"
      "shouldInclude (relPath path) include exclude"
    by blast
  then show ?thesis
  proof cases
    case 1
    with assms(4) show ?thesis by (simp add: created_ok_def)
  next
    case 2
    from 2(2) have ne: "path \<noteq> []" by (auto simp: relPath_def)
    have "incl_chain include exclude path" by (rule incl_chain_snoc[OF assms(3) ne 2(3)])
    with ne assms(2) have "ok_path include exclude (relPath path)"
      unfolding ok_path_def by blast
    with 2(1) assms(4) show ?thesis by (simp add: created_ok_def)
  qed
qed

lemma walk_created_ok:
  "walk F path node st = (r, st') \<Longrightarrow> F = copy_walkFn w cb dest include exclude \<Longrightarrow>
   wf_node node \<Longrightarrow> list_all name_ok path \<Longrightarrow>
   incl_chain include exclude (butlast path) \<Longrightarrow> created_ok include exclude st \<Longrightarrow>
   created_ok include exclude st'"
  "walk_entries F path entries st = (r, st') \<Longrightarrow> F = copy_walkFn w cb dest include exclude \<Longrightarrow>
   wf_entries entries \<Longrightarrow> list_all name_ok path \<Longrightarrow>
   incl_chain include exclude path \<Longrightarrow> created_ok include exclude st \<Longrightarrow>
   created_ok include exclude st'"
proof (induction F path node st and F path entries st arbitrary: r st' and r st'
    rule: walk_walk_entries.induct)
  case (1 walkFn path entries st)
  obtain r1 st1 where f: "walkFn path (Dir entries) st = (r1, st1)"
    by (cases "walkFn path (Dir entries) st")
  have ok1: "created_ok include exclude st1"
    using f "1.prems" copy_walkFn_created_ok by metis
  show ?case
  proof (cases r1)
    case Continue
    have chain: "incl_chain include exclude path"
    proof (cases "path = []")
      case True
      then show ?thesis by (simp add: incl_chain_Nil)
    next
      case False
      with "1.prems"(4) have "relPath path \<noteq> ''.''" by (simp add: relPath_not_dot)
      with f Continue "1.prems"(2) have "shouldInclude (relPath path) include exclude"
        using copy_walkFn_Continue_Dir by metis
      with "1.prems"(5) False show ?thesis using incl_chain_snoc by blast
    qed
    have "walk_entries walkFn path entries st1 = (r, st')"
      using "1.prems"(1) f Continue by simp
    from "1.IH"[OF f[symmetric] Continue this "1.prems"(2) _ "1.prems"(4) chain ok1]
      "1.prems"(3)
    show ?thesis by simp
  next
    case SkipDir
    with "1.prems"(1) f ok1 show ?thesis by simp
  next
    case (Fail e)
    with "1.prems"(1) f ok1 show ?thesis by simp
  qed
next
  case (9 walkFn path name node rest st)
  obtain r1 st1 where w1: "walk walkFn (path @ [name]) node st = (r1, st1)"
    by (cases "walk walkFn (path @ [name]) node st")
  from "9.prems"(3) have wf: "name_ok name" "wf_node node" "wf_entries rest" by auto
  have ok1: "created_ok include exclude st1"
    using "9.IH"(1)[OF w1 "9.prems"(2) wf(2)] "9.prems"(4,5,6) wf(1) by simp
  show ?case
  proof (cases r1)
    case Continue
    with "9.prems"(1) w1 have "walk_entries walkFn path rest st1 = (r, st')" by simp
    from "9.IH"(2)[OF w1[symmetric] Continue this "9.prems"(2) wf(3) "9.prems"(4,5) ok1]
    show ?thesis .
  next
    case SkipDir
    show ?thesis
    proof (cases "IsDir node \<or> lstat_failed node")
      case True
      with "9.prems"(1) w1 SkipDir have "walk_entries walkFn path rest st1 = (r, st')" by simp
      from "9.IH"(3)[OF w1[symmetric] SkipDir True this "9.prems"(2) wf(3) "9.prems"(4,5) ok1]
      show ?thesis .
    next
      case False
      with "9.prems"(1) w1 SkipDir ok1 show ?thesis by simp
    qed
  next
    case (Fail e)
    with "9.prems"(1) w1 ok1 show ?thesis by simp
  qed
qed (simp_all del: copy_walkFn.simps, (blast intro: copy_walkFn_created_ok)+)


lemma excluded_by_iff:
  "excluded_by path exclude \<longleftrightarrow>
     (\<exists>p \<in> set exclude. matched p path \<or> HasPrefix path (p @ [Separator]))"
  by (induction exclude) auto

lemma copyDirectory_created_ok:
  assumes "wf_node src"
  shows "created_ok include exclude (snd (copyDirectory w cb dest include exclude src copy_init))"
proof -
  obtain r st' where wk: "walk (copy_walkFn w cb dest include exclude) [] src copy_init = (r, st')"
    by (cases "walk (copy_walkFn w cb dest include exclude) [] src copy_init")
  have "created_ok include exclude copy_init"
    by (simp add: created_ok_def copy_init_def)
  with walk_created_ok(1)[OF wk refl assms] have "created_ok include exclude st'"
    by (simp add: incl_chain_Nil)
  moreover have "snd (copyDirectory w cb dest include exclude src copy_init) = st'"
    using wk by (simp add: copyDirectory_def Walk_def split: walk_res.splits)
  ultimately show ?thesis by simp
qed

definition quiet_world :: world where
  "quiet_world =
     \<lparr>sources = (\<lambda>path. None), isWindowsProtectedPath = (\<lambda>path e. False),
      MkdirAll = (\<lambda>dest rel. None), copyFile_result = (\<lambda>dest rel. Copied),
      Symlink = (\<lambda>dest rel. None), getFreeSpace = Inr 0, MkdirAll_run = None,
      rootEntries = [], ReadDir_err = None, RemoveAll_err = (\<lambda>name. None)\<rparr>"

section \<open>Claims about the filters\<close>

text \<open>
  Claim C7 (exclude overrides include).  For a pattern \<open>p\<close> of the exclude list: a
  path that \<open>p\<close> matches as a glob, or that starts with \<open>p\<close> followed by the
  separator, is rejected by \<open>shouldInclude\<close> whatever the include list is; and when
  \<open>p\<close> matches \<open>d\<close>, no path created by \<open>copyDirectory\<close> lies under \<open>d\<close>, for
  every source tree with well-formed names, every include list and every outcome of
  the file operations.
\<close>

theorem exclude_overrides_include:
  assumes "p \<in> set exclude"
  shows "(matched p path \<or> HasPrefix path (p @ [Separator]) \<longrightarrow>
            shouldInclude path include exclude = False)
       \<and> (matched p d \<and> wf_node src \<longrightarrow>
            (\<forall>q \<in> set (created (snd (copyDirectory w cb dest include exclude src copy_init))).
               \<not> HasPrefix q (d @ [Separator])))"
proof (intro conjI impI ballI)
  assume "matched p path \<or> HasPrefix path (p @ [Separator])"
  with assms have "excluded_by path exclude" unfolding excluded_by_iff by blast
  then show "shouldInclude path include exclude = False" by (simp add: shouldInclude_def)
next
  fix q
  assume m: "matched p d \<and> wf_node src"
    and q: "q \<in> set (created (snd (copyDirectory w cb dest include exclude src copy_init)))"
  from m assms have "excluded_by d exclude" unfolding excluded_by_iff by blast
  then have nd: "\<not> shouldInclude d include exclude" by (simp add: shouldInclude_def)
  from m q copyDirectory_created_ok have "ok_path include exclude q"
    unfolding created_ok_def by blast
  then obtain ns where ns: "ns \<noteq> []" "list_all name_ok ns" "q = relPath ns"
    "incl_chain include exclude ns" unfolding ok_path_def by blast
  show "\<not> HasPrefix q (d @ [Separator])"
  proof
    assume "HasPrefix q (d @ [Separator])"
    then obtain t where "relPath ns = d @ [Separator] @ t"
      unfolding HasPrefix_iff ns(3) by auto
    from prefix_sep_decompose[OF ns(2) this ns(1)]
    obtain k where "0 < k" "k < length ns" "d = relPath (take k ns)" by blast
    with ns(4) have "shouldInclude d include exclude"
      unfolding incl_chain_def by simp
    with nd show False by simp
  qed
qed

theorem exclude_overrides_include_witness:
  "matched ''temp*'' ''tempdir''
   \<and> wf_node (Dir [(''a.pdf'', File), (''tempdir'', Dir [(''x.pdf'', File)])])
   \<and> shouldInclude ''tempdir'' [''*.pdf'', ''temp*''] [''temp*''] = False
   \<and> list_all (\<lambda>q. \<not> HasPrefix q ''tempdir/'')
        (created (snd (copyDirectory quiet_world id ''dst'' [''*.pdf'', ''temp*''] [''temp*'']
           (Dir [(''a.pdf'', File), (''tempdir'', Dir [(''x.pdf'', File)])]) copy_init)))"
proof -
  have h1: "''temp*'' \<in> set [''temp*'']" by simp
  have h2: "matched ''temp*'' ''tempdir''" by code_simp
  have h3: "wf_node (Dir [(''a.pdf'', File), (''tempdir'', Dir [(''x.pdf'', File)])])"
    by (simp add: name_ok_def Separator_def)
  from exclude_overrides_include[OF h1, of "''tempdir''" "[''*.pdf'', ''temp*'']" "''tempdir''"
      "Dir [(''a.pdf'', File), (''tempdir'', Dir [(''x.pdf'', File)])]" quiet_world id "''dst''"]
    h2 h3
  show ?thesis by (simp add: list_all_iff Separator_def)
qed

text \<open>
  Claim C2 (every descendant of a directory matching an include pattern is included,
  also when the pattern has glob metacharacters).  The code does not do this:
  \<open>Doc*\<close> matches the directory \<open>Documents\<close>, which is included and created, but
  the file \<open>Documents/a.txt\<close> below it neither matches \<open>Doc*\<close> (a star does not
  cross a separator) nor starts with the literal text \<open>Doc*/\<close>, so
  \<open>shouldInclude\<close> rejects it and \<open>copyDirectory\<close> creates the directory empty.
\<close>

theorem include_glob_directory_descendants_dropped:
  "matched ''Doc*'' ''Documents''
   \<and> shouldInclude ''Documents'' [''Doc*''] []
   \<and> \<not> shouldInclude ''Documents/a.txt'' [''Doc*''] []
   \<and> created (snd (copyDirectory quiet_world id ''dst'' [''Doc*''] []
         (Dir [(''Documents'', Dir [(''a.txt'', File)])]) copy_init)) = [''Documents'']"
  by code_simp

section \<open>Claims about the configuration\<close>

text \<open>
  Claim C1 (both retention floors hold after a successful \<open>validate\<close>; a configured
  \<open>min_free_space\<close> of \<open>5mb\<close> yields the parsed value 10485760).  The code does not
  do this: for \<open>5mb\<close> it raises \<open>BackupsToKeep\<close> from 0 to 1 and replaces the string
  by \<open>10mb\<close>, sets \<open>minFreeSpaceParsed\<close> to the floor, and then overwrites it with
  the value parsed from the configured string, 5242880, which is below the floor.
\<close>

theorem validate_min_free_space_5mb:
  "validate (NewConfig\<lparr>Retention :=
       \<lparr>BackupsToKeep = 0, MinFreeSpace = ''5mb'', minFreeSpaceParsed = 0\<rparr>\<rparr>) =
     Inr (NewConfig\<lparr>Retention :=
       \<lparr>BackupsToKeep = 1, MinFreeSpace = ''10mb'', minFreeSpaceParsed = 5242880\<rparr>\<rparr>)
   \<and> (5242880 :: uint64) < LimitMinFreeSpaceParsed"
  by code_simp

section \<open>Claims about the progress display\<close>

text \<open>\<open>callbacks totalItems n\<close> is the state after \<open>n\<close> calls of the callback.\<close>

definition callbacks :: "int \<Rightarrow> nat \<Rightarrow> progress" where
  "callbacks totalItems n = (progressCb totalItems ^^ n) progress_init"

lemma callbacks_Suc: "callbacks t (Suc n) = progressCb t (callbacks t n)"
  by (simp add: callbacks_def)

lemma percentage_mono: "0 < t \<Longrightarrow> a \<le> b \<Longrightarrow> percentage a t \<le> percentage b t"
  unfolding percentage_def by (intro zdiv_mono1) auto

lemma percentage_nonneg: "0 < t \<Longrightarrow> 0 \<le> a \<Longrightarrow> 0 \<le> percentage a t"
  unfolding percentage_def by (simp add: pos_imp_zdiv_nonneg_iff)

lemma callbacks_processed: "processedItems (callbacks t n) = int n"
  by (induction n) (auto simp: callbacks_Suc progressCb_def Let_def callbacks_def progress_init_def)

lemma callbacks_no_total: "\<not> 0 < t \<Longrightarrow> drawn (callbacks t n) = []"
  by (induction n) (auto simp: callbacks_Suc progressCb_def Let_def callbacks_def progress_init_def)

lemma callbacks_inv:
  assumes "0 < t"
  shows "lastUpdate (callbacks t n) = (if n = 0 then - 1 else percentage (int n) t)
       \<and> set (drawn (callbacks t n)) = (\<lambda>k. percentage (int k) t) ` {1..n}
       \<and> sorted_wrt (<) (drawn (callbacks t n))
       \<and> (\<forall>x \<in> set (drawn (callbacks t n)). x \<le> lastUpdate (callbacks t n))"
proof (induction n)
  case 0
  show ?case by (simp add: callbacks_def progress_init_def)
next
  case (Suc n)
  let ?p = "callbacks t n"
  let ?pct = "percentage (int (Suc n)) t"
  have proc: "processedItems ?p = int n" by (rule callbacks_processed)
  have img: "(\<lambda>k. percentage (int k) t) ` {1..Suc n} =
      insert ?pct ((\<lambda>k. percentage (int k) t) ` {1..n})"
    by (simp add: atLeastAtMostSuc_conv)
  show ?case
  proof (cases "lastUpdate ?p < ?pct")
    case True
    then have step: "callbacks t (Suc n) = ?p\<lparr>processedItems := int n + 1, lastUpdate := ?pct,
        drawn := drawn ?p @ [?pct]\<rparr>"
      using assms proc by (simp add: callbacks_Suc progressCb_def Let_def add.commute)
    from Suc have "\<forall>x \<in> set (drawn ?p). x \<le> lastUpdate ?p" by blast
    with True have lt: "\<forall>x \<in> set (drawn ?p). x < ?pct" by fastforce
    from Suc have "set (drawn ?p) = (\<lambda>k. percentage (int k) t) ` {1..n}"
      and "sorted_wrt (<) (drawn ?p)" by blast+
    with lt show ?thesis
      unfolding step img by (simp add: sorted_wrt_append less_imp_le)
  next
    case False
    then have step: "callbacks t (Suc n) = ?p\<lparr>processedItems := int n + 1\<rparr>"
      using assms proc by (simp add: callbacks_Suc progressCb_def Let_def add.commute)
    have n: "n \<noteq> 0"
    proof
      assume "n = 0"
      with Suc have "lastUpdate ?p = - 1" by simp
      moreover have "0 \<le> ?pct" using assms by (intro percentage_nonneg) auto
      ultimately show False using False by simp
    qed
    with Suc have last: "lastUpdate ?p = percentage (int n) t" by simp
    have "percentage (int n) t \<le> ?pct" using assms by (intro percentage_mono) auto
    with False last have eq: "?pct = percentage (int n) t" by simp
    have "percentage (int n) t \<in> (\<lambda>k. percentage (int k) t) ` {1..n}"
      using n by (intro imageI) auto
    with Suc last eq show ?thesis
      unfolding step img by (auto simp: insert_absorb)
  qed
qed

lemma percentage_floor:
  "percentage p t = \<lfloor>real_of_int (p * 100) / real_of_int t\<rfloor>"
  unfolding percentage_def by (rule floor_divide_of_int_eq[symmetric])

text \<open>
  Claim C8 (monotonic redraw).  After \<open>n\<close> created entries the callback has counted
  \<open>n\<close>; the percentage is the floor of \<open>processed * 100 / total\<close>; the percentages
  drawn are strictly increasing, so the display never regresses and never repeats;
  and they are exactly the distinct values of the percentage over the entries
  processed, so the number of redraws is the number of distinct percentages (none
  at all when the total is not positive).
\<close>

theorem progress_redraw_monotone:
  "processedItems (callbacks t n) = int n
   \<and> sorted_wrt (<) (drawn (callbacks t n))
   \<and> set (drawn (callbacks t n)) = (if 0 < t then (\<lambda>k. percentage (int k) t) ` {1..n} else {})
   \<and> length (drawn (callbacks t n)) =
       (if 0 < t then card ((\<lambda>k. percentage (int k) t) ` {1..n}) else 0)
   \<and> percentage (int n) t = \<lfloor>real_of_int (int n * 100) / real_of_int t\<rfloor>"
proof (intro conjI)
  show "processedItems (callbacks t n) = int n" by (rule callbacks_processed)
  show "percentage (int n) t = \<lfloor>real_of_int (int n * 100) / real_of_int t\<rfloor>"
    by (rule percentage_floor)
  show "sorted_wrt (<) (drawn (callbacks t n))"
    using callbacks_inv[of t n] callbacks_no_total[of t n] by (cases "0 < t") auto
  show "set (drawn (callbacks t n)) = (if 0 < t then (\<lambda>k. percentage (int k) t) ` {1..n} else {})"
    using callbacks_inv[of t n] callbacks_no_total[of t n] by (cases "0 < t") auto
  show "length (drawn (callbacks t n)) =
       (if 0 < t then card ((\<lambda>k. percentage (int k) t) ` {1..n}) else 0)"
  proof (cases "0 < t")
    case True
    note inv = callbacks_inv[OF True, of n]
    from inv have "distinct (drawn (callbacks t n))"
      using strict_sorted_iff by blast
    then have "length (drawn (callbacks t n)) = card (set (drawn (callbacks t n)))"
      by (simp add: distinct_card)
    with inv True show ?thesis by simp
  next
    case False
    then show ?thesis by (simp add: callbacks_no_total)
  qed
qed

section \<open>Claims about the retention cleanup\<close>

definition example_root :: "DirEntry list" where
  "example_root =
     [(''smbkp-05'', True), (''smbkp-01'', True), (''notes.txt'', False), (''smbkp-03'', True),
      (''smbkp-02'', True), (''smbkp-04'', True), (''smbkp-00'', False), (''other'', True)]"

text \<open>
  Claim C6 (cleanup removes the oldest backups beyond the keep count).  For a backup
  root whose entries have distinct names: the function returns nil whatever fails;
  the names it passes to \<open>os.RemoveAll\<close> are distinct names of directories whose
  name starts with \<open>smbkp-\<close>; there are (count - keep) of them, none when the count
  is at most keep or the listing fails; each of them is lexically smaller than
  every such directory that is not removed; an entry is left in place exactly when
  it is not among them or its removal failed; and the names chosen do not depend on
  which removals fail.  The order comes from \<open>os.ReadDir\<close>, which sorts by name.
\<close>

theorem cleanup_removes_oldest:
  assumes "distinct (map fst entries)"
  shows "fst (cleanupOldBackups w keep entries) = None
    \<and> distinct (fst (snd (cleanupOldBackups w keep entries)))
    \<and> set (fst (snd (cleanupOldBackups w keep entries)))
         \<subseteq> fst ` {entry \<in> set entries. is_backup_dir entry}
    \<and> length (fst (snd (cleanupOldBackups w keep entries))) =
         (if ReadDir_err w = None
          then card (fst ` {entry \<in> set entries. is_backup_dir entry}) - unat keep else 0)
    \<and> (\<forall>a \<in> set (fst (snd (cleanupOldBackups w keep entries))).
         \<forall>b \<in> fst ` {entry \<in> set entries. is_backup_dir entry}
               - set (fst (snd (cleanupOldBackups w keep entries))). a < b)
    \<and> (\<forall>entry \<in> set entries.
           entry \<in> set (snd (snd (cleanupOldBackups w keep entries))) \<longleftrightarrow>
           (fst entry \<notin> set (fst (snd (cleanupOldBackups w keep entries)))
            \<or> RemoveAll_err w (fst entry) \<noteq> None))
    \<and> fst (snd (cleanupOldBackups (w\<lparr>RemoveAll_err := f\<rparr>) keep entries)) =
         fst (snd (cleanupOldBackups w keep entries))"
proof -
  let ?names = "backup_names entries"
  let ?B = "fst ` {entry \<in> set entries. is_backup_dir entry}"
  let ?m = "length ?names - unat keep"
  let ?R = "fst (snd (cleanupOldBackups w keep entries))"
  note props = backup_names_props[OF assms]
  have strict: "sorted_wrt (<) ?names" and setB: "set ?names = ?B" by (rule props)+
  have dist: "distinct ?names" using strict by (simp add: strict_sorted_iff)
  have card: "card ?B = length ?names" using dist setB by (metis distinct_card)
  have R: "?R = (if ReadDir_err w = None then take ?m ?names else [])"
    by (rule cleanup_removed)
  have sub: "set ?R \<subseteq> ?B"
    unfolding R using setB by (auto dest: in_set_takeD)
  have dR: "distinct ?R" unfolding R using dist by simp
  have len: "length ?R = (if ReadDir_err w = None then card ?B - unat keep else 0)"
    unfolding R card by simp
  have older: "\<forall>a \<in> set ?R. \<forall>b \<in> ?B - set ?R. a < b"
  proof (cases "ReadDir_err w = None")
    case True
    have "sorted_wrt (<) (take ?m ?names @ drop ?m ?names)" using strict by simp
    then have lt: "\<forall>a \<in> set (take ?m ?names). \<forall>b \<in> set (drop ?m ?names). a < b"
      unfolding sorted_wrt_append by blast
    have "?B - set (take ?m ?names) \<subseteq> set (drop ?m ?names)"
      using setB by (metis Diff_subset_conv Un_commute append_take_drop_id set_append subset_refl)
    with lt True show ?thesis unfolding R by auto
  next
    case False
    then have "?R = []" unfolding R by auto
    then show ?thesis by simp
  qed
  have rem: "\<forall>entry \<in> set entries.
      entry \<in> set (snd (snd (cleanupOldBackups w keep entries))) \<longleftrightarrow>
      (fst entry \<notin> set ?R \<or> RemoveAll_err w (fst entry) \<noteq> None)"
    unfolding cleanup_remaining set_remove_loop by auto
  have indep: "fst (snd (cleanupOldBackups (w\<lparr>RemoveAll_err := f\<rparr>) keep entries)) = ?R"
    unfolding cleanup_removed by simp
  from cleanup_error sub dR len older rem indep show ?thesis by blast
qed

theorem cleanup_removes_oldest_witness:
  "distinct (map fst example_root)
   \<and> cleanupOldBackups quiet_world 3 example_root =
       (None, [''smbkp-01'', ''smbkp-02''],
        [(''smbkp-05'', True), (''notes.txt'', False), (''smbkp-03'', True),
         (''smbkp-04'', True), (''smbkp-00'', False), (''other'', True)])"
proof -
  have d: "distinct (map fst example_root)" by code_simp
  have ev: "cleanupOldBackups quiet_world 3 example_root =
       (None, [''smbkp-01'', ''smbkp-02''],
        [(''smbkp-05'', True), (''notes.txt'', False), (''smbkp-03'', True),
         (''smbkp-04'', True), (''smbkp-00'', False), (''other'', True)])"
    by code_simp
  from cleanup_removes_oldest[OF d, of quiet_world 3 "\<lambda>name. None"] d ev
  show ?thesis by simp
qed

text \<open>
  Claim C10 (cleanup only removes backup directories of the backup root).  The names
  passed to \<open>os.RemoveAll\<close> are names of entries of the backup root that are
  directories and start with \<open>smbkp-\<close>; every entry that is not a directory, or
  whose name does not start with \<open>smbkp-\<close>, is left in place.  The path removed
  is the backup root joined with the name of one of its entries, so nothing outside
  the backup root is named.
\<close>

theorem cleanup_only_removes_backup_dirs:
  assumes "distinct (map fst entries)"
  shows "(\<forall>name \<in> set (fst (snd (cleanupOldBackups w keep entries))).
            (name, True) \<in> set entries \<and> HasPrefix name ''smbkp-'')
       \<and> (\<forall>entry \<in> set entries.
            \<not> snd entry \<or> \<not> HasPrefix (fst entry) ''smbkp-'' \<longrightarrow>
            entry \<in> set (snd (snd (cleanupOldBackups w keep entries))))"
proof -
  let ?R = "fst (snd (cleanupOldBackups w keep entries))"
  have R: "?R = (if ReadDir_err w = None
      then take (length (backup_names entries) - unat keep) (backup_names entries) else [])"
    by (rule cleanup_removed)
  have "set ?R \<subseteq> set (backup_names entries)"
    unfolding R by (auto dest: in_set_takeD)
  then have sub: "set ?R \<subseteq> fst ` {entry \<in> set entries. is_backup_dir entry}"
    using backup_names_props(2)[OF assms] by simp
  have first: "\<forall>name \<in> set ?R. (name, True) \<in> set entries \<and> HasPrefix name ''smbkp-''"
  proof
    fix name assume "name \<in> set ?R"
    with sub obtain entry where en: "entry \<in> set entries" "is_backup_dir entry" "fst entry = name"
      by auto
    from en(2,3) have "entry = (name, True)" "HasPrefix name ''smbkp-''"
      by (simp_all add: is_backup_dir_def Prefix_def prod_eq_iff)
    with en(1) show "(name, True) \<in> set entries \<and> HasPrefix name ''smbkp-''"
      by simp
  qed
  have second: "\<forall>entry \<in> set entries.
      \<not> snd entry \<or> \<not> HasPrefix (fst entry) ''smbkp-'' \<longrightarrow>
      entry \<in> set (snd (snd (cleanupOldBackups w keep entries)))"
  proof (intro ballI impI)
    fix entry assume e: "entry \<in> set entries"
      and n: "\<not> snd entry \<or> \<not> HasPrefix (fst entry) ''smbkp-''"
    have "fst entry \<notin> set ?R"
    proof
      assume "fst entry \<in> set ?R"
      with first have "(fst entry, True) \<in> set entries" "HasPrefix (fst entry) ''smbkp-''"
        by auto
      moreover from this e assms have "entry = (fst entry, True)"
        by (metis eq_key_imp_eq_value prod.collapse)
      ultimately show False using n by (metis snd_conv)
    qed
    with e show "entry \<in> set (snd (snd (cleanupOldBackups w keep entries)))"
      unfolding cleanup_remaining set_remove_loop by auto
  qed
  from first second show ?thesis by blast
qed

theorem cleanup_only_removes_backup_dirs_witness:
  "distinct (map fst example_root)
   \<and> list_all (\<lambda>name. (name, True) \<in> set example_root \<and> HasPrefix name ''smbkp-'')
        (fst (snd (cleanupOldBackups quiet_world 1 example_root)))
   \<and> (''notes.txt'', False) \<in> set (snd (snd (cleanupOldBackups quiet_world 1 example_root)))
   \<and> (''smbkp-00'', False) \<in> set (snd (snd (cleanupOldBackups quiet_world 1 example_root)))
   \<and> (''other'', True) \<in> set (snd (snd (cleanupOldBackups quiet_world 1 example_root)))"
proof -
  have d: "distinct (map fst example_root)" by code_simp
  have m: "(''notes.txt'', False) \<in> set example_root" "(''smbkp-00'', False) \<in> set example_root"
    "(''other'', True) \<in> set example_root"
    by (simp_all add: example_root_def)
  have o: "\<not> HasPrefix ''other'' ''smbkp-''" by simp
  from cleanup_only_removes_backup_dirs[OF d, of quiet_world 1] m o d
  show ?thesis unfolding list_all_iff by fastforce
qed

end
